theory Spec2Isabelle
  imports Main
begin

section \<open>The regular expressions of the script\<close>

text \<open>
  The script \<^verbatim>\<open>sysadmin/apache_request_access_grant.py\<close> is a Python 2 program whose
  parsing is done by \<^verbatim>\<open>re.search\<close>. Every pattern it uses is a sequence of
  single-character atoms (a literal, a class, \<^verbatim>\<open>\S\<close>, \<^verbatim>\<open>\d\<close>, \<^verbatim>\<open>.\<close>), each
  optionally quantified (\<^verbatim>\<open>+\<close>, \<^verbatim>\<open>*\<close>, \<^verbatim>\<open>*?\<close>, \<^verbatim>\<open>{1,3}\<close>), with capturing groups
  that are never nested. The matcher below is the backtracking search of the \<^verbatim>\<open>re\<close>
  module for patterns of that shape: a greedy quantifier tries the longest run first, a lazy
  one the shortest, and \<^verbatim>\<open>re.search\<close> returns the match at the leftmost start position.
  Strings are Python 2 byte strings, so a character is a byte.
\<close>

abbreviation nl :: char where "nl \<equiv> CHR 0x0A"
abbreviation dquote :: char where "dquote \<equiv> CHR 0x22"
abbreviation squote :: char where "squote \<equiv> CHR 0x27"

definition ord :: "char \<Rightarrow> int" where
  "ord c = of_char c"

text \<open>Case folding of \<^verbatim>\<open>re.I\<close> on a byte string: ASCII letters only.\<close>

definition lower :: "char \<Rightarrow> char" where
  "lower c =
     (let n = ord c in if ord (CHR ''A'') \<le> n \<and> n \<le> ord (CHR ''Z'') then char_of (n + 32) else c)"

text \<open>\<^verbatim>\<open>\s\<close> on a byte string: space, tab, newline, carriage return, form feed, vertical tab.\<close>

definition is_space :: "char \<Rightarrow> bool" where
  "is_space c = (c \<in> set [CHR '' '', CHR 0x09, CHR 0x0A, CHR 0x0D, CHR 0x0C, CHR 0x0B])"

datatype cclass =
    Is char
  | OneOf string
  | NoneOf string
  | Range char char
  | NonSpace
  | Digit
  | Dot

datatype piece =
    One cclass
  | Rep cclass nat "nat option" bool
  | Open
  | Close

fun accepts :: "bool \<Rightarrow> cclass \<Rightarrow> char \<Rightarrow> bool" where
  "accepts ic (Is c) x = (if ic then lower x = lower c else x = c)"
| "accepts ic (OneOf cs) x = (if ic then lower x \<in> set (map lower cs) else x \<in> set cs)"
| "accepts ic (NoneOf cs) x = (if ic then lower x \<notin> set (map lower cs) else x \<notin> set cs)"
| "accepts ic (Range a b) x =
     (let y = (if ic then lower x else x) in ord a \<le> ord y \<and> ord y \<le> ord b)"
| "accepts ic NonSpace x = (\<not> is_space x)"
| "accepts ic Digit x = (ord (CHR ''0'') \<le> ord x \<and> ord x \<le> ord (CHR ''9''))"
| "accepts ic Dot x = (x \<noteq> nl)"

fun first_some :: "('a \<Rightarrow> 'b option) \<Rightarrow> 'a list \<Rightarrow> 'b option" where
  "first_some f [] = None"
| "first_some f (k # ks) = (case f k of Some r \<Rightarrow> Some r | None \<Rightarrow> first_some f ks)"

text \<open>
  \<open>rmatch ic ps s\<close> matches the pattern \<open>ps\<close> at the start of \<open>s\<close> (\<open>ic\<close> is the flag
  \<^verbatim>\<open>re.I\<close>) and returns the text consumed by each piece, in order.
  \<open>Rep c lo hi greedy\<close> is the atom \<open>c\<close> repeated \<open>lo\<close> to \<open>hi\<close> times (\<open>None\<close>: unbounded).
\<close>

fun rmatch :: "bool \<Rightarrow> piece list \<Rightarrow> string \<Rightarrow> string list option" where
  "rmatch ic [] s = Some []"
| "rmatch ic (One c # ps) s =
     (case s of
        [] \<Rightarrow> None
      | x # xs \<Rightarrow> if accepts ic c x then map_option (Cons [x]) (rmatch ic ps xs) else None)"
| "rmatch ic (Open # ps) s = map_option (Cons []) (rmatch ic ps s)"
| "rmatch ic (Close # ps) s = map_option (Cons []) (rmatch ic ps s)"
| "rmatch ic (Rep c lo hi greedy # ps) s =
     (let n = length (takeWhile (accepts ic c) s);
          m = (case hi of None \<Rightarrow> n | Some h \<Rightarrow> min h n);
          ks = (if greedy then rev [lo..<Suc m] else [lo..<Suc m])
      in first_some (\<lambda>k. map_option (Cons (take k s)) (rmatch ic ps (drop k s))) ks)"

text \<open>The captured groups, in the order of their opening parentheses.\<close>

fun groups_of :: "piece list \<Rightarrow> string list \<Rightarrow> string option \<Rightarrow> string list" where
  "groups_of (Open # ps) (c # cs) cur = groups_of ps cs (Some [])"
| "groups_of (Close # ps) (c # cs) (Some g) = g # groups_of ps cs None"
| "groups_of (p # ps) (c # cs) (Some g) = groups_of ps cs (Some (g @ c))"
| "groups_of (p # ps) (c # cs) None = groups_of ps cs None"
| "groups_of _ _ _ = []"

text \<open>
  \<^verbatim>\<open>re.search\<close>: \<open>None\<close> when no start position matches, otherwise the match object,
  modelled by its tuple \<^verbatim>\<open>groups()\<close>.
\<close>

fun re_search :: "bool \<Rightarrow> piece list \<Rightarrow> string \<Rightarrow> string list option" where
  "re_search ic ps s =
     (case rmatch ic ps s of
        Some ch \<Rightarrow> Some (groups_of ps ch None)
      | None \<Rightarrow> (case s of [] \<Rightarrow> None | x # xs \<Rightarrow> re_search ic ps xs))"

text \<open>\<^verbatim>\<open>m.group(k)\<close> for \<open>k \<ge> 1\<close>.\<close>

definition match_group :: "string list \<Rightarrow> nat \<Rightarrow> string" where
  "match_group m k = m ! (k - 1)"

definition lit :: "string \<Rightarrow> piece list" where
  "lit s = map (\<lambda>c. One (Is c)) s"

definition capture :: "piece list \<Rightarrow> piece list" where
  "capture ps = Open # ps @ [Close]"

definition plus :: "cclass \<Rightarrow> piece" where
  "plus c = Rep c 1 None True"

definition star :: "cclass \<Rightarrow> piece" where
  "star c = Rep c 0 None True"

definition star_lazy :: "cclass \<Rightarrow> piece" where
  "star_lazy c = Rep c 0 None False"

text \<open>
  \<^verbatim>\<open>accessLogRegex = '(\S+) (\S+) (\S+) \[([^:]+):(\d+:\d+:\d+) ([^\]]+)\] \"(\S+) (.*?) (\S+)\" (\S+) (\S+) "([^"]*)" "([^"]*)"'\<close>
\<close>

definition accessLogRegex :: "piece list" where
  "accessLogRegex =
     capture [plus NonSpace] @ lit '' '' @
     capture [plus NonSpace] @ lit '' '' @
     capture [plus NonSpace] @ lit '' ['' @
     capture [plus (NoneOf '':'')] @ lit '':'' @
     capture ([plus Digit] @ lit '':'' @ [plus Digit] @ lit '':'' @ [plus Digit]) @ lit '' '' @
     capture [plus (NoneOf '']'')] @ lit ''] '' @
     lit [dquote] @ capture [plus NonSpace] @ lit '' '' @
     capture [star_lazy Dot] @ lit '' '' @
     capture [plus NonSpace] @ lit [dquote] @ lit '' '' @
     capture [plus NonSpace] @ lit '' '' @
     capture [plus NonSpace] @ lit '' '' @
     lit [dquote] @ capture [star (NoneOf [dquote])] @ lit [dquote] @ lit '' '' @
     lit [dquote] @ capture [star (NoneOf [dquote])] @ lit [dquote]"

text \<open>\<^verbatim>\<open>ipRegex = "([0-9]{1,3}\.[0-9]{1,3}\.[0-9]{1,3}\.[0-9]{1,3})"\<close>\<close>

definition octet :: piece where
  "octet = Rep (Range (CHR ''0'') (CHR ''9'')) 1 (Some 3) True"

definition ipRegex :: "piece list" where
  "ipRegex = capture ([octet] @ lit ''.'' @ [octet] @ lit ''.'' @ [octet] @ lit ''.'' @ [octet])"

text \<open>\<^verbatim>\<open>'[Aa][lL][lL][oO][wW] [fF][rR][oO][mM] ' + ipRegex\<close>\<close>

definition allowRegex :: "piece list" where
  "allowRegex =
     [One (OneOf ''Aa''), One (OneOf ''lL''), One (OneOf ''lL''), One (OneOf ''oO''),
      One (OneOf ''wW'')] @ lit '' '' @
     [One (OneOf ''fF''), One (OneOf ''rR''), One (OneOf ''oO''), One (OneOf ''mM'')] @
     lit '' '' @ ipRegex"

text \<open>
  The two markers are used as patterns with \<^verbatim>\<open>re.I\<close>. None of their characters is
  special to the \<^verbatim>\<open>re\<close> module of Python 2 (a brace that opens no valid quantifier is a
  literal), so each is a sequence of literals.
\<close>

definition beginScriptSection :: string where
  "beginScriptSection = ''# begin auto-script section {{{''"

definition endScriptSection :: string where
  "endScriptSection = ''# end auto-script section }}}''"

definition is_begin :: "string \<Rightarrow> bool" where
  "is_begin line = (re_search True (lit beginScriptSection) line \<noteq> None)"

definition is_end :: "string \<Rightarrow> bool" where
  "is_end line = (re_search True (lit endScriptSection) line \<noteq> None)"

section \<open>Comparison of a tuple with an integer in Python 2\<close>

text \<open>
  The guards \<^verbatim>\<open>ip.groups() > 1\<close> and \<^verbatim>\<open>acc.groups() > 12\<close> compare a tuple with
  an int. CPython 2 orders values of different types by the name of their type, where a
  number counts as the empty name; two tuples are compared lexicographically.
\<close>

datatype pyval = PyInt int | PyTuple "string list"

fun type_name :: "pyval \<Rightarrow> string" where
  "type_name (PyInt n) = ''''"
| "type_name (PyTuple t) = ''tuple''"

fun str_gt :: "string \<Rightarrow> string \<Rightarrow> bool" where
  "str_gt [] ys = False"
| "str_gt (x # xs) [] = True"
| "str_gt (x # xs) (y # ys) = (ord x > ord y \<or> (x = y \<and> str_gt xs ys))"

fun tuple_gt :: "string list \<Rightarrow> string list \<Rightarrow> bool" where
  "tuple_gt [] ys = False"
| "tuple_gt (x # xs) [] = True"
| "tuple_gt (x # xs) (y # ys) = (if x = y then tuple_gt xs ys else str_gt x y)"

fun py_gt :: "pyval \<Rightarrow> pyval \<Rightarrow> bool" where
  "py_gt (PyInt a) (PyInt b) = (a > b)"
| "py_gt (PyTuple a) (PyTuple b) = tuple_gt a b"
| "py_gt v w = str_gt (type_name v) (type_name w)"

section \<open>Parsing the configuration file\<close>

text \<open>A file object iterates over its lines, each with its terminating newline.\<close>

fun readlines_from :: "string \<Rightarrow> string \<Rightarrow> string list" where
  "readlines_from cur [] = (if cur = [] then [] else [cur])"
| "readlines_from cur (c # cs) =
     (if c = nl then (cur @ [c]) # readlines_from [] cs else readlines_from (cur @ [c]) cs)"

definition readlines :: "string \<Rightarrow> string list" where
  "readlines s = readlines_from [] s"

record config_scan =
  safety :: int
  insideScriptSection :: int
  lines :: "string list"
  authorizedIps :: "string list"

definition config_scan0 :: config_scan where
  "config_scan0 = \<lparr>safety = 0, insideScriptSection = 0, lines = [], authorizedIps = []\<rparr>"

text \<open>\<^verbatim>\<open>line.replace('\n', '')\<close>\<close>

definition strip_nl :: "string \<Rightarrow> string" where
  "strip_nl line = filter (\<lambda>c. c \<noteq> nl) line"

text \<open>The part of the loop body under \<^verbatim>\<open>if insideScriptSection == 1\<close>.\<close>

definition collect_allow :: "config_scan \<Rightarrow> string \<Rightarrow> config_scan" where
  "collect_allow st line =
     (let st1 = st\<lparr>lines := lines st @ [strip_nl line]\<rparr> in
      case re_search False allowRegex line of
        None \<Rightarrow> st1
      | Some ip \<Rightarrow>
          if py_gt (PyTuple ip) (PyInt 1) then
            (let ipToAdd = match_group ip 1 in
             if ipToAdd \<in> set (authorizedIps st1) then st1
             else st1\<lparr>authorizedIps := authorizedIps st1 @ [match_group ip 1]\<rparr>)
          else st1)"

text \<open>One iteration of \<^verbatim>\<open>for line in f\<close>.\<close>

definition config_step :: "config_scan \<Rightarrow> string \<Rightarrow> config_scan" where
  "config_step st line =
     (if is_begin line then st\<lparr>safety := safety st + 1, insideScriptSection := 1\<rparr>
      else
        (let st1 = (if is_end line then st\<lparr>safety := safety st + 1, insideScriptSection := 0\<rparr>
                    else st)
         in if insideScriptSection st1 = 1 then collect_allow st1 line else st1))"

definition parse_config :: "string list \<Rightarrow> config_scan" where
  "parse_config ls = foldl config_step config_scan0 ls"

section \<open>Parsing the access log\<close>

record IpRequest =
  ip :: string
  identd :: string
  remoteUser :: string
  date :: string
  time :: string
  timezone :: string
  request :: string
  status :: string
  size_f :: int
  userAgent :: string

text \<open>\<^verbatim>\<open>IpRequest()\<close>: every field has its class-level default.\<close>

definition IpRequest0 :: IpRequest where
  "IpRequest0 = \<lparr>ip = [], identd = [], remoteUser = [], date = [], time = [], timezone = [],
                 request = [], status = [], size_f = 0, userAgent = []\<rparr>"

text \<open>\<^verbatim>\<open>requests.split('\n')\<close>\<close>

fun split_from :: "string \<Rightarrow> string \<Rightarrow> string list" where
  "split_from cur [] = [cur]"
| "split_from cur (c # cs) =
     (if c = nl then cur # split_from [] cs else split_from (cur @ [c]) cs)"

definition split_nl :: "string \<Rightarrow> string list" where
  "split_nl s = split_from [] s"

record log_scan =
  requestEntries :: "IpRequest list"
  requestingIps :: "string list"

definition log_scan0 :: log_scan where
  "log_scan0 = \<lparr>requestEntries = [], requestingIps = []\<rparr>"

definition make_entry :: "string list \<Rightarrow> IpRequest" where
  "make_entry acc =
     IpRequest0\<lparr>ip := match_group acc 1, userAgent := match_group acc 13, date := match_group acc 4,
                time := match_group acc 5, timezone := match_group acc 6\<rparr>"

text \<open>One iteration of \<^verbatim>\<open>for line in requests\<close>.\<close>

definition log_step :: "log_scan \<Rightarrow> string \<Rightarrow> log_scan" where
  "log_step st line =
     (case re_search False accessLogRegex line of
        None \<Rightarrow> st
      | Some acc \<Rightarrow>
          if py_gt (PyTuple acc) (PyInt 12) \<and> match_group acc 1 \<notin> set (requestingIps st) then
            (let ipEntry = make_entry acc in
             st\<lparr>requestEntries := requestEntries st @ [ipEntry],
                requestingIps := requestingIps st @ [ip ipEntry]\<rparr>)
          else st)"

definition parse_log :: "string list \<Rightarrow> log_scan" where
  "parse_log requests = foldl log_step log_scan0 requests"

text \<open>The two list comprehensions that drop the addresses already authorized.\<close>

definition drop_authorized :: "string list \<Rightarrow> log_scan \<Rightarrow> log_scan" where
  "drop_authorized auth st =
     \<lparr>requestEntries = filter (\<lambda>x. ip x \<notin> set auth) (requestEntries st),
      requestingIps = filter (\<lambda>x. x \<notin> set auth) (requestingIps st)\<rparr>"

definition pending :: "string list \<Rightarrow> string list \<Rightarrow> log_scan" where
  "pending auth requests = drop_authorized auth (parse_log requests)"

section \<open>Writing the configuration file\<close>

datatype error = IndexError | EOFError | IOError

text \<open>
  The \<^verbatim>\<open>while True\<close> loop that looks for the insertion point:
  \<^verbatim>\<open>configLines[insertIndex]\<close> raises IndexError past the end of the list.
\<close>

function insert_search :: "string list \<Rightarrow> nat \<Rightarrow> error + nat" where
  "insert_search configLines insertIndex =
     (if insertIndex \<ge> length configLines then Inl IndexError
      else if is_end (configLines ! insertIndex) then Inr insertIndex
      else insert_search configLines (insertIndex + 1))"
  by pat_completeness auto
termination
  by (relation "measure (\<lambda>(configLines, insertIndex). length configLines - insertIndex)") auto

declare insert_search.simps [simp del]

definition find_insertIndex :: "string list \<Rightarrow> error + nat" where
  "find_insertIndex configLines = insert_search configLines 1"

text \<open>
  The text added for one request; \<open>stamp\<close> is what
  \<^verbatim>\<open>datetime.datetime.now().ctime()\<close> returns when the item is reached.
\<close>

definition newLineComment :: "string \<Rightarrow> IpRequest \<Rightarrow> string" where
  "newLineComment stamp item =
     ''# allowing ip '' @ [squote] @ ip item @ [squote] @ '' on '' @ stamp @
     '', request via '' @ userAgent item @ [nl]"

definition newLine :: "IpRequest \<Rightarrow> string" where
  "newLine item = ''Allow from '' @ ip item @ [nl]"

text \<open>The loop \<^verbatim>\<open>for item in requestEntries\<close>; \<open>k\<close> counts the readings of the clock.\<close>

fun build_newContent :: "(nat \<Rightarrow> string) \<Rightarrow> nat \<Rightarrow> IpRequest list \<Rightarrow> string \<Rightarrow> string" where
  "build_newContent clock k [] newContent = newContent"
| "build_newContent clock k (item # items) newContent =
     build_newContent clock (Suc k) items
       (newContent @ [nl] @ newLineComment (clock k) item @ newLine item)"

text \<open>\<^verbatim>\<open>list.insert(i, x)\<close> for \<open>i \<ge> 0\<close>: an index past the end appends.\<close>

definition list_insert :: "'a list \<Rightarrow> nat \<Rightarrow> 'a \<Rightarrow> 'a list" where
  "list_insert xs i x = take i xs @ [x] @ drop i xs"

text \<open>
  Writing at offset 0 of a file opened with \<^verbatim>\<open>'r+b'\<close> overwrites and does not truncate.
\<close>

definition overwrite :: "string \<Rightarrow> string \<Rightarrow> string" where
  "overwrite old new = new @ drop (length new) old"

definition append_authorizations ::
  "(nat \<Rightarrow> string) \<Rightarrow> string list \<Rightarrow> IpRequest list \<Rightarrow> error + string list" where
  "append_authorizations clock configLines entries =
     (case find_insertIndex configLines of
        Inl e \<Rightarrow> Inl e
      | Inr insertIndex \<Rightarrow>
          Inr (list_insert configLines insertIndex (build_newContent clock 0 entries [])))"

section \<open>The whole run\<close>

datatype copy_result = CopyRaises | CopyDone bool

record world =
  config_file :: "string option"
  backup_copy :: copy_result
  log_tail :: string
  answer :: "string option"
  ctime :: "nat \<Rightarrow> string"

datatype exit_kind =
    ConfigMissing
  | BackupFailed
  | MalformedConfig
  | NoNewRequests
  | Declined
  | Crashed error
  | Completed

record outcome =
  exit_with :: exit_kind
  config_after :: "string option"
  prompted :: bool
  restarted :: bool

definition stop :: "world \<Rightarrow> exit_kind \<Rightarrow> bool \<Rightarrow> outcome" where
  "stop w e p = \<lparr>exit_with = e, config_after = config_file w, prompted = p, restarted = False\<rparr>"

text \<open>
  Everything up to the prompt: either the run ends early, or it reaches the prompt with the
  lines of the configuration file and the pending requests.
\<close>

definition before_prompt :: "world \<Rightarrow> outcome + (string list \<times> log_scan)" where
  "before_prompt w =
     (case config_file w of
        None \<Rightarrow> Inl (stop w ConfigMissing False)
      | Some content \<Rightarrow>
          (case backup_copy w of
             CopyRaises \<Rightarrow> Inl (stop w (Crashed IOError) False)
           | CopyDone backupExists \<Rightarrow>
               if \<not> backupExists then Inl (stop w BackupFailed False)
               else
                 (let configLines = readlines content;
                      scan = parse_config configLines
                  in if \<not> (safety scan = 2) then Inl (stop w MalformedConfig False)
                     else
                       (let p = pending (authorizedIps scan) (split_nl (log_tail w))
                        in if \<not> (length (requestingIps p) > 0)
                           then Inl (stop w NoNewRequests False)
                           else Inr (configLines, p)))))"

definition after_prompt :: "world \<Rightarrow> string list \<Rightarrow> log_scan \<Rightarrow> outcome" where
  "after_prompt w configLines p =
     (case answer w of
        None \<Rightarrow> stop w (Crashed EOFError) True
      | Some cont \<Rightarrow>
          if \<not> (cont = ''y'' \<or> cont = ''Y'') then stop w Declined True
          else
            (case append_authorizations (ctime w) configLines (requestEntries p) of
               Inl e \<Rightarrow> stop w (Crashed e) True
             | Inr newLines \<Rightarrow>
                 \<lparr>exit_with = Completed,
                  config_after = map_option (\<lambda>old. overwrite old (concat newLines)) (config_file w),
                  prompted = True, restarted = True\<rparr>))"

definition run :: "world \<Rightarrow> outcome" where
  "run w =
     (case before_prompt w of
        Inl out \<Rightarrow> out
      | Inr (configLines, p) \<Rightarrow> after_prompt w configLines p)"

section \<open>Notions used to state the properties\<close>

text \<open>The request record that the log loop builds from one line, if the line matches.\<close>

definition line_entry :: "string \<Rightarrow> IpRequest option" where
  "line_entry line = map_option make_entry (re_search False accessLogRegex line)"

text \<open>
  \<open>first_with_ip requests e\<close>: the first line of \<open>requests\<close> that matches and carries
  the address of \<open>e\<close> is a line from which \<open>e\<close> is built.
\<close>

definition first_with_ip :: "string list \<Rightarrow> IpRequest \<Rightarrow> bool" where
  "first_with_ip requests e =
     (case find (\<lambda>l. map_option ip (line_entry l) = Some (ip e)) requests of
        None \<Rightarrow> False
      | Some l \<Rightarrow> line_entry l = Some e)"

text \<open>The address that a configuration line contributes, if it matches the allow pattern.\<close>

definition allow_address :: "string \<Rightarrow> string option" where
  "allow_address line = map_option (\<lambda>m. match_group m 1) (re_search False allowRegex line)"

text \<open>
  A valid managed region: line \<open>b\<close> is the only line in which the begin marker is found,
  line \<open>e\<close> the only line in which the end marker is found, and \<open>b\<close> comes first.
\<close>

definition valid_region :: "string list \<Rightarrow> nat \<Rightarrow> nat \<Rightarrow> bool" where
  "valid_region ls b e =
     (b < e \<and> e < length ls \<and> is_begin (ls ! b) \<and> is_end (ls ! e) \<and>
      (\<forall>i\<in>{0..<length ls}. is_begin (ls ! i) \<longrightarrow> i = b) \<and>
      (\<forall>i\<in>{0..<length ls}. is_end (ls ! i) \<longrightarrow> i = e))"

definition unmarked :: "string \<Rightarrow> bool" where
  "unmarked l = (\<not> is_begin l \<and> \<not> is_end l)"

text \<open>The number of capturing groups of a pattern.\<close>

fun count_groups :: "piece list \<Rightarrow> bool \<Rightarrow> nat" where
  "count_groups [] opened = 0"
| "count_groups (Open # ps) opened = count_groups ps True"
| "count_groups (Close # ps) True = Suc (count_groups ps False)"
| "count_groups (p # ps) opened = count_groups ps opened"

text \<open>
  The text that the write step adds for the \<open>k\<close>-th pending request: an empty line, the
  comment line and the directive.
\<close>

definition inserted_block :: "(nat \<Rightarrow> string) \<Rightarrow> nat \<times> IpRequest \<Rightarrow> string" where
  "inserted_block clock ki = [nl] @ newLineComment (clock (fst ki)) (snd ki) @ newLine (snd ki)"

text \<open>
  The specification's wording of the write step: a two-line block per request (the comment
  line, then the directive), all blocks placed before line \<open>endIndex\<close>.
\<close>

definition spec_block :: "(nat \<Rightarrow> string) \<Rightarrow> nat \<times> IpRequest \<Rightarrow> string" where
  "spec_block clock ki = newLineComment (clock (fst ki)) (snd ki) @ newLine (snd ki)"

definition spec_AppendAuthorizations ::
  "(nat \<Rightarrow> string) \<Rightarrow> string list \<Rightarrow> nat \<Rightarrow> IpRequest list \<Rightarrow> string list" where
  "spec_AppendAuthorizations clock fileLines endIndex entries =
     take endIndex fileLines @ map (spec_block clock) (enumerate 0 entries) @
     drop endIndex fileLines"

section \<open>Example inputs\<close>

definition begin_line :: string where
  "begin_line = beginScriptSection @ [nl]"

definition end_line :: string where
  "end_line = endScriptSection @ [nl]"

definition example_config :: "string list" where
  "example_config =
     [''Order deny,allow'' @ [nl], begin_line, ''Allow from 10.0.0.5'' @ [nl],
      ''# comment'' @ [nl], end_line, ''Deny from all'' @ [nl]]"

definition example_request :: "string \<Rightarrow> string \<Rightarrow> string" where
  "example_request address agent =
     address @ '' - - [20/Jul/2015:10:00:00 +0000] \"GET /request_access HTTP/1.1\" 200 123 \"-\" \"'' @
     agent @ ''\"''"

definition example_requests :: "string list" where
  "example_requests =
     [example_request ''1.2.3.4'' ''A'', example_request ''5.6.7.8'' ''B'',
      example_request ''1.2.3.4'' ''C'', '''']"

definition example_entry :: "string \<Rightarrow> string \<Rightarrow> IpRequest" where
  "example_entry address agent =
     IpRequest0\<lparr>ip := address, userAgent := agent, date := ''20/Jul/2015'',
                time := ''10:00:00'', timezone := ''+0000''\<rparr>"

definition example_clock :: "nat \<Rightarrow> string" where
  "example_clock k = ''Mon Jul 20 10:00:00 2015''"

definition example_world :: "string list \<Rightarrow> string \<Rightarrow> string option \<Rightarrow> world" where
  "example_world configLines log reply =
     \<lparr>config_file = Some (concat configLines), backup_copy = CopyDone True, log_tail = log,
      answer = reply, ctime = example_clock\<rparr>"

definition two_begins :: "string list" where
  "two_begins = [begin_line, begin_line]"

definition region_only :: "string list" where
  "region_only = [begin_line, end_line]"

section \<open>Filtering against the authorized addresses\<close>

lemma pending_entries_filter:
  "requestEntries (pending auth requests) =
     filter (\<lambda>x. ip x \<notin> set auth) (requestEntries (parse_log requests))"
  by (simp add: pending_def drop_authorized_def)

lemma pending_ips_filter:
  "requestingIps (pending auth requests) =
     filter (\<lambda>x. x \<notin> set auth) (requestingIps (parse_log requests))"
  by (simp add: pending_def drop_authorized_def)

section \<open>The log loop keeps the first request of each address\<close>

lemma py_gt_tuple_int [simp]: "py_gt (PyTuple t) (PyInt n)"
  by simp

lemma ip_make_entry [simp]: "ip (make_entry acc) = match_group acc 1"
  by (simp add: make_entry_def)

lemma log_step_cases:
  "log_step st line =
     (case line_entry line of
        None \<Rightarrow> st
      | Some e \<Rightarrow>
          if ip e \<in> set (requestingIps st) then st
          else st\<lparr>requestEntries := requestEntries st @ [e],
                  requestingIps := requestingIps st @ [ip e]\<rparr>)"
  by (simp add: log_step_def line_entry_def Let_def split: option.splits)

lemma parse_log_snoc: "parse_log (requests @ [line]) = log_step (parse_log requests) line"
  by (simp add: parse_log_def)

lemma find_snoc:
  "find P (xs @ [x]) =
     (case find P xs of None \<Rightarrow> (if P x then Some x else None) | Some y \<Rightarrow> Some y)"
  by (induction xs) simp_all

lemma first_with_ip_snoc: "first_with_ip requests e \<Longrightarrow> first_with_ip (requests @ [x]) e"
  by (simp add: first_with_ip_def find_snoc split: option.splits)

lemma first_with_ip_new:
  assumes "line_entry x = Some e"
    and "\<forall>l\<in>set xs. \<forall>e'. line_entry l = Some e' \<longrightarrow> ip e' \<noteq> ip e"
  shows "first_with_ip (xs @ [x]) e"
proof -
  have "find (\<lambda>l. map_option ip (line_entry l) = Some (ip e)) xs = None"
    using assms(2) by (auto simp: find_None_iff)
  then show ?thesis
    using assms(1) by (simp add: first_with_ip_def find_snoc)
qed

lemma parse_log_invariant:
  "requestingIps (parse_log requests) = map ip (requestEntries (parse_log requests)) \<and>
   distinct (requestingIps (parse_log requests)) \<and>
   (\<forall>e\<in>set (requestEntries (parse_log requests)). first_with_ip requests e) \<and>
   (\<forall>l\<in>set requests. \<forall>e. line_entry l = Some e \<longrightarrow> ip e \<in> set (requestingIps (parse_log requests)))"
proof (induction requests rule: rev_induct)
  case Nil
  show ?case by (simp add: parse_log_def log_scan0_def)
next
  case (snoc x xs)
  let ?st = "parse_log xs"
  show ?case
  proof (cases "line_entry x")
    case None
    then have eq: "parse_log (xs @ [x]) = ?st"
      by (simp add: parse_log_snoc log_step_cases)
    show ?thesis unfolding eq using snoc None
      by (auto intro: first_with_ip_snoc)
  next
    case (Some e)
    show ?thesis
    proof (cases "ip e \<in> set (requestingIps ?st)")
      case True
      then have eq: "parse_log (xs @ [x]) = ?st"
        by (simp add: parse_log_snoc log_step_cases Some)
      show ?thesis unfolding eq using snoc Some True
        by (auto intro: first_with_ip_snoc)
    next
      case False
      then have eq: "parse_log (xs @ [x]) =
          ?st\<lparr>requestEntries := requestEntries ?st @ [e],
               requestingIps := requestingIps ?st @ [ip e]\<rparr>"
        by (simp add: parse_log_snoc log_step_cases Some)
      have "\<forall>l\<in>set xs. \<forall>e'. line_entry l = Some e' \<longrightarrow> ip e' \<noteq> ip e"
        using snoc False by auto
      with Some have new: "first_with_ip (xs @ [x]) e"
        by (rule first_with_ip_new)
      show ?thesis unfolding eq using snoc Some False new
        by (auto intro: first_with_ip_snoc)
    qed
  qed
qed

section \<open>The scan of the configuration file\<close>

lemma collect_allow_cases:
  "collect_allow st line =
     (case allow_address line of
        None \<Rightarrow> st\<lparr>lines := lines st @ [strip_nl line]\<rparr>
      | Some a \<Rightarrow>
          if a \<in> set (authorizedIps st) then st\<lparr>lines := lines st @ [strip_nl line]\<rparr>
          else st\<lparr>lines := lines st @ [strip_nl line], authorizedIps := authorizedIps st @ [a]\<rparr>)"
  by (simp add: collect_allow_def allow_address_def Let_def split: option.splits)

lemma collect_allow_fields:
  "safety (collect_allow st line) = safety st"
  "insideScriptSection (collect_allow st line) = insideScriptSection st"
  "set (authorizedIps (collect_allow st line)) =
     set (authorizedIps st) \<union> {a. allow_address line = Some a}"
  by (auto simp: collect_allow_cases split: option.splits)

lemma config_step_begin:
  "is_begin l \<Longrightarrow>
     config_step st l = st\<lparr>safety := safety st + 1, insideScriptSection := 1\<rparr>"
  by (simp add: config_step_def)

lemma config_step_end:
  "\<not> is_begin l \<Longrightarrow> is_end l \<Longrightarrow>
     config_step st l = st\<lparr>safety := safety st + 1, insideScriptSection := 0\<rparr>"
  by (simp add: config_step_def)

lemma config_step_outside:
  "unmarked l \<Longrightarrow> insideScriptSection st \<noteq> 1 \<Longrightarrow> config_step st l = st"
  by (simp add: config_step_def unmarked_def)

lemma config_step_inside:
  "unmarked l \<Longrightarrow> insideScriptSection st = 1 \<Longrightarrow> config_step st l = collect_allow st l"
  by (simp add: config_step_def unmarked_def)

lemma scan_outside:
  "\<forall>l\<in>set xs. unmarked l \<Longrightarrow> insideScriptSection st \<noteq> 1 \<Longrightarrow> foldl config_step st xs = st"
  by (induction xs arbitrary: st) (simp_all add: config_step_outside)

lemma scan_inside:
  "\<forall>l\<in>set xs. unmarked l \<Longrightarrow> insideScriptSection st = 1 \<Longrightarrow>
     safety (foldl config_step st xs) = safety st \<and>
     insideScriptSection (foldl config_step st xs) = 1 \<and>
     set (authorizedIps (foldl config_step st xs)) =
       set (authorizedIps st) \<union> {a. \<exists>l\<in>set xs. allow_address l = Some a}"
proof (induction xs arbitrary: st)
  case Nil
  then show ?case by simp
next
  case (Cons x xs)
  have step: "config_step st x = collect_allow st x"
    using Cons.prems by (simp add: config_step_inside)
  have inside: "insideScriptSection (collect_allow st x) = 1"
    using Cons.prems by (simp add: collect_allow_fields)
  have rest: "\<forall>l\<in>set xs. unmarked l"
    using Cons.prems by simp
  from Cons.IH [OF rest inside] show ?case
    by (auto simp: step collect_allow_fields)
qed

lemma scan_region:
  assumes pre: "\<forall>l\<in>set pre. unmarked l" and mid: "\<forall>l\<in>set mid. unmarked l"
    and post: "\<forall>l\<in>set post. unmarked l"
    and bl: "is_begin bl" and el: "is_end el" "\<not> is_begin el"
  shows "safety (parse_config (pre @ [bl] @ mid @ [el] @ post)) = 2 \<and>
         set (authorizedIps (parse_config (pre @ [bl] @ mid @ [el] @ post))) =
           {a. \<exists>l\<in>set mid. allow_address l = Some a}"
proof -
  let ?s0 = "config_scan0"
  let ?s1 = "?s0\<lparr>safety := safety ?s0 + 1, insideScriptSection := 1\<rparr>"
  let ?s2 = "foldl config_step ?s1 mid"
  let ?s3 = "?s2\<lparr>safety := safety ?s2 + 1, insideScriptSection := 0\<rparr>"
  have a: "foldl config_step ?s0 pre = ?s0"
    using pre by (intro scan_outside) (simp_all add: config_scan0_def)
  have b: "config_step ?s0 bl = ?s1"
    using bl by (rule config_step_begin)
  have c: "safety ?s2 = safety ?s1 \<and> insideScriptSection ?s2 = 1 \<and>
      set (authorizedIps ?s2) = set (authorizedIps ?s1) \<union> {a. \<exists>l\<in>set mid. allow_address l = Some a}"
    using mid by (intro scan_inside) simp_all
  have d: "config_step ?s2 el = ?s3"
    using el by (simp add: config_step_end)
  have e: "foldl config_step ?s3 post = ?s3"
    using post by (intro scan_outside) simp_all
  have "parse_config (pre @ [bl] @ mid @ [el] @ post) = ?s3"
    by (simp add: parse_config_def a b d e)
  then show ?thesis using c by (simp add: config_scan0_def)
qed

lemma valid_regionD:
  assumes "valid_region ls b e"
  shows "b < e" and "e < length ls" and "is_begin (ls ! b)" and "is_end (ls ! e)"
    and "\<forall>i<length ls. is_begin (ls ! i) \<longrightarrow> i = b"
    and "\<forall>i<length ls. is_end (ls ! i) \<longrightarrow> i = e"
  using assms unfolding valid_region_def by auto

lemma set_slice:
  "l \<in> set (drop a (take e ls)) \<longleftrightarrow> (\<exists>i. a \<le> i \<and> i < e \<and> i < length ls \<and> l = ls ! i)"
proof
  assume "l \<in> set (drop a (take e ls))"
  then obtain j where j: "j < length (drop a (take e ls))" and l: "l = drop a (take e ls) ! j"
    by (metis in_set_conv_nth)
  from j have bound: "a + j < e" "a + j < length ls" by simp_all
  then have "l = ls ! (a + j)" using l by simp
  then show "\<exists>i. a \<le> i \<and> i < e \<and> i < length ls \<and> l = ls ! i"
    using bound by (intro exI [of _ "a + j"]) simp
next
  assume "\<exists>i. a \<le> i \<and> i < e \<and> i < length ls \<and> l = ls ! i"
  then obtain i where i: "a \<le> i" "i < e" "i < length ls" and l: "l = ls ! i" by blast
  have len: "i - a < length (drop a (take e ls))" using i by simp
  have "drop a (take e ls) ! (i - a) = ls ! i" using i by simp
  then show "l \<in> set (drop a (take e ls))"
    using len l by (metis nth_mem)
qed

lemma valid_region_split:
  assumes "valid_region ls b e"
  shows "ls = take b ls @ [ls ! b] @ drop (Suc b) (take e ls) @ [ls ! e] @ drop (Suc e) ls"
proof -
  note be = valid_regionD(1,2) [OF assms]
  have 1: "ls = take e ls @ ls ! e # drop (Suc e) ls"
    using be by (simp add: id_take_nth_drop)
  have "b < length (take e ls)" using be by simp
  then have "take e ls = take b (take e ls) @ take e ls ! b # drop (Suc b) (take e ls)"
    by (rule id_take_nth_drop)
  then have 2: "take e ls = take b ls @ ls ! b # drop (Suc b) (take e ls)"
    using be by (simp add: min_def)
  show ?thesis
    using 1 2 by (metis append_Cons append_Nil append_assoc)
qed

lemma valid_region_parts:
  assumes v: "valid_region ls b e"
  shows "\<forall>l\<in>set (take b ls). unmarked l"
    and "\<forall>l\<in>set (drop (Suc b) (take e ls)). unmarked l"
    and "\<forall>l\<in>set (drop (Suc e) ls). unmarked l"
proof -
  note be = valid_regionD(1,2) [OF v]
  have other: "unmarked (ls ! i)" if "i < length ls" "i \<noteq> b" "i \<noteq> e" for i
  proof -
    have "\<not> is_begin (ls ! i)" using valid_regionD(5) [OF v] that by blast
    moreover have "\<not> is_end (ls ! i)" using valid_regionD(6) [OF v] that by blast
    ultimately show ?thesis by (simp add: unmarked_def)
  qed
  show "\<forall>l\<in>set (take b ls). unmarked l"
  proof
    fix l assume "l \<in> set (take b ls)"
    then have "l \<in> set (drop 0 (take b ls))" by simp
    then obtain i where "i < b" "i < length ls" "l = ls ! i"
      unfolding set_slice by blast
    then show "unmarked l" using other [of i] be by simp
  qed
  show "\<forall>l\<in>set (drop (Suc b) (take e ls)). unmarked l"
  proof
    fix l assume "l \<in> set (drop (Suc b) (take e ls))"
    then obtain i where "Suc b \<le> i" "i < e" "i < length ls" "l = ls ! i"
      unfolding set_slice by blast
    then show "unmarked l" using other [of i] by simp
  qed
  show "\<forall>l\<in>set (drop (Suc e) ls). unmarked l"
  proof
    fix l assume "l \<in> set (drop (Suc e) ls)"
    then have "l \<in> set (drop (Suc e) (take (length ls) ls))" by simp
    then obtain i where "Suc e \<le> i" "i < length ls" "l = ls ! i"
      unfolding set_slice by blast
    then show "unmarked l" using other [of i] be by simp
  qed
qed

lemma valid_region_scan:
  assumes v: "valid_region ls b e"
  shows "safety (parse_config ls) = 2 \<and>
         set (authorizedIps (parse_config ls)) =
           {a. \<exists>l\<in>set (drop (Suc b) (take e ls)). allow_address l = Some a}"
proof -
  note be = valid_regionD(1,2) [OF v]
  note bl = valid_regionD(3) [OF v]
  note el = valid_regionD(4) [OF v]
  have not_begin: "\<not> is_begin (ls ! e)"
    using valid_regionD(5) [OF v] be by blast
  show ?thesis
    using scan_region [OF valid_region_parts [OF v] bl el not_begin]
      valid_region_split [OF v] by simp
qed


section \<open>The search for the insertion point\<close>

lemma insert_search_none:
  "\<forall>i. k \<le> i \<and> i < length ls \<longrightarrow> \<not> is_end (ls ! i) \<Longrightarrow> insert_search ls k = Inl IndexError"
proof (induction ls k rule: insert_search.induct)
  case (1 ls k)
  show ?case
  proof (cases "k \<ge> length ls")
    case True
    then show ?thesis by (simp add: insert_search.simps [of ls k])
  next
    case False
    then have ne: "\<not> is_end (ls ! k)" using "1.prems" by simp
    have "insert_search ls (k + 1) = Inl IndexError"
      using "1.IH" [OF False ne] "1.prems" by simp
    then show ?thesis using False ne by (simp add: insert_search.simps [of ls k])
  qed
qed

lemma insert_search_found:
  "insert_search ls k = Inr i \<Longrightarrow>
     k \<le> i \<and> i < length ls \<and> is_end (ls ! i) \<and> (\<forall>j. k \<le> j \<and> j < i \<longrightarrow> \<not> is_end (ls ! j))"
proof (induction ls k rule: insert_search.induct)
  case (1 ls k)
  show ?case
  proof (cases "k \<ge> length ls")
    case True
    then show ?thesis using "1.prems" by (simp add: insert_search.simps [of ls k])
  next
    case False
    show ?thesis
    proof (cases "is_end (ls ! k)")
      case True
      then have "i = k" using False "1.prems" by (simp add: insert_search.simps [of ls k])
      then show ?thesis using False True by auto
    next
      case ne: False
      then have "insert_search ls (k + 1) = Inr i"
        using False "1.prems" by (simp add: insert_search.simps [of ls k])
      from "1.IH" [OF False ne this] have
        ih: "k + 1 \<le> i" "i < length ls" "is_end (ls ! i)"
            "\<forall>j. k + 1 \<le> j \<and> j < i \<longrightarrow> \<not> is_end (ls ! j)" by simp_all
      have "\<not> is_end (ls ! j)" if "k \<le> j" "j < i" for j
      proof (cases "j = k")
        case True then show ?thesis using ne by simp
      next
        case False then show ?thesis using ih(4) that by simp
      qed
      then show ?thesis using ih by simp
    qed
  qed
qed

lemma insert_search_first:
  "k \<le> e \<Longrightarrow> e < length ls \<Longrightarrow> is_end (ls ! e) \<Longrightarrow>
   \<forall>j. k \<le> j \<and> j < e \<longrightarrow> \<not> is_end (ls ! j) \<Longrightarrow> insert_search ls k = Inr e"
proof (induction ls k rule: insert_search.induct)
  case (1 ls k)
  have inb: "\<not> k \<ge> length ls" using "1.prems" by simp
  show ?case
  proof (cases "is_end (ls ! k)")
    case True
    then have "\<not> k < e" using "1.prems" by auto
    then have "k = e" using "1.prems" by simp
    then show ?thesis using inb True by (subst insert_search.simps) simp
  next
    case False
    then have "k \<noteq> e" using "1.prems" by auto
    then have "k + 1 \<le> e" using "1.prems" by simp
    then have "insert_search ls (k + 1) = Inr e"
      using "1.IH" [OF inb False] "1.prems" by simp
    then show ?thesis using inb False by (simp add: insert_search.simps [of ls k])
  qed
qed

lemma insert_search_Cons:
  "insert_search (x # rest) (Suc k) =
     (case insert_search rest k of Inl err \<Rightarrow> Inl err | Inr i \<Rightarrow> Inr (Suc i))"
proof (induction rest k rule: insert_search.induct)
  case (1 rest k)
  show ?case
  proof (cases "k \<ge> length rest")
    case True
    then show ?thesis
      by (simp add: insert_search.simps [of rest k] insert_search.simps [of "x # rest" "Suc k"])
  next
    case False
    show ?thesis
    proof (cases "is_end (rest ! k)")
      case True
      then show ?thesis using False
        by (simp add: insert_search.simps [of rest k] insert_search.simps [of "x # rest" "Suc k"])
    next
      case ne: False
      from "1.IH" [OF False ne] show ?thesis using False ne
        by (simp add: insert_search.simps [of rest k] insert_search.simps [of "x # rest" "Suc k"])
    qed
  qed
qed

lemma find_insertIndex_Cons:
  "find_insertIndex (x # rest) =
     (case insert_search rest 0 of Inl err \<Rightarrow> Inl err | Inr i \<Rightarrow> Inr (Suc i))"
  using insert_search_Cons [of x rest 0] by (simp add: find_insertIndex_def)


section \<open>The inserted text and the written file\<close>

lemma build_newContent_concat:
  "build_newContent clock k items acc =
     acc @ concat (map (inserted_block clock) (enumerate k items))"
  by (induction items arbitrary: k acc) (simp_all add: inserted_block_def)

lemma valid_region_insertIndex:
  assumes v: "valid_region ls b e"
  shows "find_insertIndex ls = Inr e"
proof -
  note e = valid_regionD(1,2,4) [OF v]
  note uniq = valid_regionD(6) [OF v]
  have "\<not> is_end (ls ! j)" if "j < e" for j
    using uniq e that by (metis less_trans nat_neq_iff)
  then have "\<forall>j. 1 \<le> j \<and> j < e \<longrightarrow> \<not> is_end (ls ! j)" by blast
  moreover have "1 \<le> e" using e by simp
  ultimately show ?thesis
    unfolding find_insertIndex_def using e by (intro insert_search_first)
qed

lemma append_authorizations_valid:
  assumes v: "valid_region configLines b e"
  shows "append_authorizations clock configLines entries =
       Inr (take e configLines @
            [concat (map (inserted_block clock) (enumerate 0 entries))] @
            drop e configLines)"
  by (simp add: append_authorizations_def valid_region_insertIndex [OF v]
        list_insert_def build_newContent_concat)

lemma concat_readlines_from: "concat (readlines_from cur s) = cur @ s"
  by (induction s arbitrary: cur) simp_all

lemma concat_readlines: "concat (readlines s) = s"
  by (simp add: readlines_def concat_readlines_from)

lemma concat_list_insert: "concat (list_insert xs i x) = concat (take i xs) @ x @ concat (drop i xs)"
  by (simp add: list_insert_def)

lemma overwrite_longer: "length old \<le> length new \<Longrightarrow> overwrite old new = new"
  by (simp add: overwrite_def)

lemma overwrite_insert:
  "overwrite (concat xs) (concat (list_insert xs i x)) = concat (list_insert xs i x)"
proof -
  have "concat xs = concat (take i xs) @ concat (drop i xs)"
    by (metis append_take_drop_id concat_append)
  then have "length (concat xs) = length (concat (take i xs)) + length (concat (drop i xs))"
    by (metis length_append)
  moreover have "length (concat (list_insert xs i x)) =
      length (concat (take i xs)) + (length x + length (concat (drop i xs)))"
    by (simp only: concat_list_insert length_append)
  ultimately have "length (concat xs) \<le> length (concat (list_insert xs i x))"
    by linarith
  then show ?thesis by (rule overwrite_longer)
qed

section \<open>The groups of a match\<close>

text \<open>
  A match of the access-log pattern has thirteen groups and a match of the allow pattern has
  one, so every \<^verbatim>\<open>group(k)\<close> of the script is in range.
\<close>

lemma first_some_Some: "first_some f ks = Some r \<Longrightarrow> \<exists>k\<in>set ks. f k = Some r"
  by (induction ks) (auto split: option.splits)

lemma rmatch_length: "rmatch ic ps s = Some ch \<Longrightarrow> length ch = length ps"
proof (induction ps arbitrary: s ch)
  case Nil
  then show ?case by simp
next
  case (Cons p ps)
  show ?case
  proof (cases p)
    case (One c)
    with Cons show ?thesis by (auto split: list.splits if_splits)
  next
    case (Rep c lo hi greedy)
    with Cons.prems obtain k where "map_option (Cons (take k s)) (rmatch ic ps (drop k s)) = Some ch"
      by (auto simp: Let_def dest: first_some_Some)
    with Cons.IH show ?thesis by auto
  next
    case Open
    with Cons show ?thesis by auto
  next
    case Close
    with Cons show ?thesis by auto
  qed
qed

lemma groups_of_length:
  "length ch = length ps \<Longrightarrow> length (groups_of ps ch cur) = count_groups ps (cur \<noteq> None)"
  by (induction ps ch cur rule: groups_of.induct) simp_all

lemma re_search_groups: "re_search ic ps s = Some m \<Longrightarrow> length m = count_groups ps False"
proof (induction s)
  case Nil
  then show ?case
    by (auto split: option.splits dest!: rmatch_length simp: groups_of_length)
next
  case (Cons x xs)
  then show ?case
    by (auto split: option.splits dest!: rmatch_length simp: groups_of_length)
qed

lemma accessLog_groups: "re_search False accessLogRegex line = Some acc \<Longrightarrow> length acc = 13"
proof -
  have "count_groups accessLogRegex False = 13" by code_simp
  then show "re_search False accessLogRegex line = Some acc \<Longrightarrow> length acc = 13"
    using re_search_groups by metis
qed

lemma allow_groups: "re_search False allowRegex line = Some m \<Longrightarrow> length m = 1"
proof -
  have "count_groups allowRegex False = 1" by code_simp
  then show "re_search False allowRegex line = Some m \<Longrightarrow> length m = 1"
    using re_search_groups by metis
qed

text \<open>
  The search is not anchored: text before and after the matched part of a line is ignored.
\<close>

lemma search_not_anchored:
  "requestingIps (parse_log [''junk '' @ example_request ''1.2.3.4'' ''A'' @ '' more'']) =
     [''1.2.3.4''] \<and>
   allow_address (''# allow FROM 10.0.0.5 for now'' @ [nl]) = Some ''10.0.0.5''"
  by code_simp

section \<open>The run before and after the prompt\<close>

lemma pending_lists_agree:
  "requestingIps (pending auth requests) = map ip (requestEntries (pending auth requests))"
  using parse_log_invariant [of requests]
  by (simp add: pending_entries_filter pending_ips_filter filter_map comp_def)

lemma before_prompt_early:
  "before_prompt w = Inl out \<Longrightarrow>
     config_after out = config_file w \<and> \<not> prompted out \<and> \<not> restarted out \<and>
     exit_with out \<noteq> Completed \<and> exit_with out \<noteq> Declined"
  by (auto simp: before_prompt_def stop_def Let_def
      split: option.splits copy_result.splits if_splits)

lemma before_prompt_lines:
  "before_prompt w = Inr (configLines, p) \<Longrightarrow>
     \<exists>content. config_file w = Some content \<and> configLines = readlines content"
  by (auto simp: before_prompt_def Let_def split: option.splits copy_result.splits if_splits)

lemma run_completed:
  assumes reach: "before_prompt w = Inr (configLines, p)"
    and yes: "answer w = Some cont" "cont = ''y'' \<or> cont = ''Y''"
    and v: "valid_region configLines b e"
  shows "run w =
     \<lparr>exit_with = Completed,
      config_after = Some (concat (take e configLines) @
        concat (map (inserted_block (ctime w)) (enumerate 0 (requestEntries p))) @
        concat (drop e configLines)),
      prompted = True, restarted = True\<rparr>"
proof -
  let ?x = "concat (map (inserted_block (ctime w)) (enumerate 0 (requestEntries p)))"
  from before_prompt_lines [OF reach] obtain content
    where c: "config_file w = Some content" "configLines = readlines content" by blast
  have old: "content = concat configLines"
    using c(2) by (simp add: concat_readlines)
  have new: "append_authorizations (ctime w) configLines (requestEntries p) =
      Inr (list_insert configLines e ?x)"
    using append_authorizations_valid [OF v] by (simp add: list_insert_def)
  have "overwrite content (concat (list_insert configLines e ?x)) =
      concat (list_insert configLines e ?x)"
    unfolding old by (rule overwrite_insert)
  then show ?thesis
    using reach yes c(1) new
    by (auto simp: run_def after_prompt_def concat_list_insert)
qed

lemma end_to_end_example:
  "run (example_world region_only (example_request ''9.9.9.9'' ''UA'' @ [nl]) (Some ''y'')) =
     \<lparr>exit_with = Completed,
      config_after = Some (begin_line @ [nl] @
        ''# allowing ip '' @ [squote] @ ''9.9.9.9'' @ [squote] @
        '' on Mon Jul 20 10:00:00 2015, request via UA'' @ [nl] @
        ''Allow from 9.9.9.9'' @ [nl] @ end_line),
      prompted = True, restarted = True\<rparr>"
  by code_simp

section \<open>The claims about the log parser\<close>



text \<open>
  Claim C5. In Python 2 a tuple is greater than any int, so the guards
  \<^verbatim>\<open>ip.groups() > 1\<close> and \<^verbatim>\<open>acc.groups() > 12\<close> hold for every match object:
  both loop bodies depend only on whether the search matched (and on the address being new).
\<close>

theorem group_guards_vacuous:
  "py_gt (PyTuple groups) (PyInt 1) \<and> py_gt (PyTuple groups) (PyInt 12) \<and>
   log_step st line =
     (case re_search False accessLogRegex line of
        None \<Rightarrow> st
      | Some acc \<Rightarrow>
          if match_group acc 1 \<in> set (requestingIps st) then st
          else st\<lparr>requestEntries := requestEntries st @ [make_entry acc],
                  requestingIps := requestingIps st @ [match_group acc 1]\<rparr>) \<and>
   collect_allow cst cline =
     (case re_search False allowRegex cline of
        None \<Rightarrow> cst\<lparr>lines := lines cst @ [strip_nl cline]\<rparr>
      | Some m \<Rightarrow>
          if match_group m 1 \<in> set (authorizedIps cst)
          then cst\<lparr>lines := lines cst @ [strip_nl cline]\<rparr>
          else cst\<lparr>lines := lines cst @ [strip_nl cline],
                   authorizedIps := authorizedIps cst @ [match_group m 1]\<rparr>)"
  by (simp add: log_step_def collect_allow_def Let_def split: option.splits)

theorem group_guards_vacuous_witness:
  "py_gt (PyTuple []) (PyInt 1) \<and> py_gt (PyTuple [''1.2.3.4'']) (PyInt 12)"
  using group_guards_vacuous [of "[]"] group_guards_vacuous [of "[''1.2.3.4'']"] by simp

text \<open>
  Claim C6. An address of the authorized list never appears in the pending requests, neither
  in the list of entries nor in the list of addresses, however often the log repeats it.
\<close>

theorem authorized_never_pending:
  "a \<in> set auth \<Longrightarrow>
     a \<notin> ip ` set (requestEntries (pending auth requests)) \<and>
     a \<notin> set (requestingIps (pending auth requests))"
  by (auto simp: pending_entries_filter pending_ips_filter)

theorem authorized_never_pending_witness:
  "''1.2.3.4'' \<in> set [''1.2.3.4''] \<and>
   ''1.2.3.4'' \<notin> ip ` set (requestEntries (pending [''1.2.3.4''] example_requests)) \<and>
   ''1.2.3.4'' \<notin> set (requestingIps (pending [''1.2.3.4''] example_requests)) \<and>
   requestingIps (pending [''1.2.3.4''] example_requests) = [''5.6.7.8''] \<and>
   requestingIps (parse_log example_requests) = [''1.2.3.4'', ''5.6.7.8'']"
proof -
  have 1: "requestingIps (pending [''1.2.3.4''] example_requests) = [''5.6.7.8'']"
    by code_simp
  have 2: "requestingIps (parse_log example_requests) = [''1.2.3.4'', ''5.6.7.8'']"
    by code_simp
  show ?thesis
    using authorized_never_pending [of "''1.2.3.4''" "[''1.2.3.4'']" example_requests] 1 2
    by simp
qed

text \<open>
  Claim C7. The pending requests hold at most one entry per address, and each entry is the
  one built from the first matching log line that carries its address.
\<close>

theorem first_request_wins:
  "distinct (map ip (requestEntries (pending auth requests))) \<and>
   distinct (requestingIps (pending auth requests)) \<and>
   (\<forall>e\<in>set (requestEntries (pending auth requests)). first_with_ip requests e)"
proof -
  from parse_log_invariant [of requests]
  have ips: "requestingIps (parse_log requests) = map ip (requestEntries (parse_log requests))"
    and dist: "distinct (requestingIps (parse_log requests))"
    and first: "\<forall>e\<in>set (requestEntries (parse_log requests)). first_with_ip requests e"
    by blast+
  have "distinct (map ip (requestEntries (parse_log requests)))"
    using dist ips by simp
  then have "distinct (map ip (requestEntries (pending auth requests)))"
    unfolding pending_entries_filter by (rule distinct_map_filter)
  moreover have "distinct (requestingIps (pending auth requests))"
    unfolding pending_ips_filter using dist by (rule distinct_filter)
  moreover have "\<forall>e\<in>set (requestEntries (pending auth requests)). first_with_ip requests e"
    unfolding pending_entries_filter using first by simp
  ultimately show ?thesis by blast
qed

theorem first_request_wins_witness:
  "requestEntries (pending [] example_requests) =
     [example_entry ''1.2.3.4'' ''A'', example_entry ''5.6.7.8'' ''B''] \<and>
   distinct (map ip (requestEntries (pending [] example_requests))) \<and>
   first_with_ip example_requests (example_entry ''1.2.3.4'' ''A'') \<and>
   first_with_ip example_requests (example_entry ''5.6.7.8'' ''B'')"
proof -
  have "requestEntries (pending [] example_requests) =
      [example_entry ''1.2.3.4'' ''A'', example_entry ''5.6.7.8'' ''B'']"
    by code_simp
  then show ?thesis
    using first_request_wins [of "[]" example_requests] by simp
qed

section \<open>The claims about the configuration file\<close>

text \<open>
  Claim C1. The scan is meant to accept a file exactly when the begin marker and the end
  marker each occur once. The script adds both kinds of marker line to one counter and
  accepts when the counter is 2. A file with two begin markers and no end marker passes:
  the counter is 2, the run goes on to the prompt and, once confirmed, fails with IndexError
  in the search for the insertion point.
\<close>

theorem two_begin_markers_accepted:
  "length (filter is_begin two_begins) = 2 \<and>
   length (filter is_end two_begins) = 0 \<and>
   safety (parse_config two_begins) = 2 \<and>
   exit_with (run (example_world two_begins (example_request ''9.9.9.9'' ''UA'' @ [nl])
       (Some ''y''))) = Crashed IndexError"
  by code_simp

text \<open>
  Claim C2, as stated: a two-line block per request is placed before the end marker. The
  script starts every block with a newline, so the file gets an empty line before each
  comment line: the written text is not the text the statement describes.
\<close>

theorem two_line_block_counterexample:
  "map_sum id concat
       (append_authorizations example_clock region_only [example_entry ''9.9.9.9'' ''UA'']) =
     Inr (begin_line @ [nl] @
          newLineComment (example_clock 0) (example_entry ''9.9.9.9'' ''UA'') @
          newLine (example_entry ''9.9.9.9'' ''UA'') @ end_line) \<and>
   concat (spec_AppendAuthorizations example_clock region_only 1
       [example_entry ''9.9.9.9'' ''UA'']) =
     begin_line @
     newLineComment (example_clock 0) (example_entry ''9.9.9.9'' ''UA'') @
     newLine (example_entry ''9.9.9.9'' ''UA'') @ end_line \<and>
   map_sum id concat
       (append_authorizations example_clock region_only [example_entry ''9.9.9.9'' ''UA'']) \<noteq>
     Inr (concat (spec_AppendAuthorizations example_clock region_only 1
       [example_entry ''9.9.9.9'' ''UA'']))"
  by code_simp

text \<open>
  Claim C2, amended. With a valid managed region whose end marker is line \<open>e\<close>, the write
  step succeeds and returns the original lines with one new element inserted at index \<open>e\<close>,
  directly before the end-marker line, every original line kept in place and order. The new
  element is the concatenation, over the pending requests in order, of three lines each: an
  empty line, the comment line with the address, the timestamp and the user agent, and the
  line \<^verbatim>\<open>Allow from <address>\<close>.
\<close>

theorem append_before_end_marker:
  "valid_region configLines b e \<Longrightarrow>
     append_authorizations clock configLines entries =
       Inr (take e configLines @
            [concat (map (inserted_block clock) (enumerate 0 entries))] @
            drop e configLines) \<and>
     hd (drop e configLines) = configLines ! e \<and> is_end (configLines ! e)"
proof -
  assume v: "valid_region configLines b e"
  note e = valid_regionD(2,4) [OF v]
  show ?thesis
    using e append_authorizations_valid [OF v] by (simp add: hd_drop_conv_nth)
qed

theorem append_before_end_marker_witness:
  "valid_region region_only 0 1 \<and>
   append_authorizations example_clock region_only
       [example_entry ''9.9.9.9'' ''UA'', example_entry ''8.8.8.8'' ''UB''] =
     Inr [begin_line,
          inserted_block example_clock (0, example_entry ''9.9.9.9'' ''UA'') @
          inserted_block example_clock (1, example_entry ''8.8.8.8'' ''UB''),
          end_line]"
proof -
  have v: "valid_region region_only 0 1" by code_simp
  from append_before_end_marker [OF v] v show ?thesis
    by (simp add: region_only_def)
qed

text \<open>
  Claim C3. With a valid managed region from line \<open>b\<close> to line \<open>e\<close>, the authorized
  addresses are exactly the addresses of the lines strictly between \<open>b\<close> and \<open>e\<close> in which
  the allow pattern is found. A region holding \<^verbatim>\<open>Allow from 10.0.0.5\<close> and
  \<^verbatim>\<open># comment\<close> gives the set with the single address \<^verbatim>\<open>10.0.0.5\<close>.
\<close>

theorem region_addresses:
  "(valid_region ls b e \<longrightarrow>
      set (authorizedIps (parse_config ls)) =
        {a. \<exists>i. b < i \<and> i < e \<and> allow_address (ls ! i) = Some a}) \<and>
   set (authorizedIps (parse_config
          [begin_line, ''Allow from 10.0.0.5'' @ [nl], ''# comment'' @ [nl], end_line])) =
     {''10.0.0.5''}"
proof (intro conjI impI)
  assume v: "valid_region ls b e"
  note be = valid_regionD(1,2) [OF v]
  have "(\<exists>l\<in>set (drop (Suc b) (take e ls)). allow_address l = Some a) \<longleftrightarrow>
        (\<exists>i. b < i \<and> i < e \<and> allow_address (ls ! i) = Some a)" for a
  proof
    assume "\<exists>l\<in>set (drop (Suc b) (take e ls)). allow_address l = Some a"
    then obtain l where "l \<in> set (drop (Suc b) (take e ls))" "allow_address l = Some a" by blast
    then obtain i where "Suc b \<le> i" "i < e" "allow_address (ls ! i) = Some a"
      unfolding set_slice by blast
    then show "\<exists>i. b < i \<and> i < e \<and> allow_address (ls ! i) = Some a"
      by (intro exI [of _ i]) simp
  next
    assume "\<exists>i. b < i \<and> i < e \<and> allow_address (ls ! i) = Some a"
    then obtain i where i: "b < i" "i < e" "allow_address (ls ! i) = Some a" by blast
    then have "ls ! i \<in> set (drop (Suc b) (take e ls))"
      unfolding set_slice using be by (intro exI [of _ i]) simp
    then show "\<exists>l\<in>set (drop (Suc b) (take e ls)). allow_address l = Some a"
      using i by blast
  qed
  then show "set (authorizedIps (parse_config ls)) =
      {a. \<exists>i. b < i \<and> i < e \<and> allow_address (ls ! i) = Some a}"
    using valid_region_scan [OF v] by simp
next
  have "authorizedIps (parse_config
          [begin_line, ''Allow from 10.0.0.5'' @ [nl], ''# comment'' @ [nl], end_line]) =
     [''10.0.0.5'']"
    by code_simp
  then show "set (authorizedIps (parse_config
          [begin_line, ''Allow from 10.0.0.5'' @ [nl], ''# comment'' @ [nl], end_line])) =
     {''10.0.0.5''}"
    by simp
qed

theorem region_addresses_witness:
  "valid_region example_config 1 4 \<and>
   set (authorizedIps (parse_config example_config)) =
     {a. \<exists>i. 1 < i \<and> i < 4 \<and> allow_address (example_config ! i) = Some a} \<and>
   allow_address (example_config ! 2) = Some ''10.0.0.5'' \<and>
   allow_address (example_config ! 3) = None \<and>
   authorizedIps (parse_config example_config) = [''10.0.0.5'']"
proof -
  have v: "valid_region example_config 1 4" by code_simp
  have 2: "allow_address (example_config ! 2) = Some ''10.0.0.5''" by code_simp
  have 3: "allow_address (example_config ! 3) = None" by code_simp
  have 4: "authorizedIps (parse_config example_config) = [''10.0.0.5'']" by code_simp
  from region_addresses [of example_config 1 4] v
  have "set (authorizedIps (parse_config example_config)) =
     {a. \<exists>i. 1 < i \<and> i < 4 \<and> allow_address (example_config ! i) = Some a}"
    by blast
  then show ?thesis using v 2 3 4 by blast
qed

text \<open>
  Claim C10. The search for the insertion point starts at index 1. If no line at an index
  from 1 on contains the end marker it ends with IndexError; if it returns an index, that
  index is at least 1 and its line contains the end marker; the first line has no influence
  on the result.
\<close>

theorem insertion_search:
  "((\<forall>i. 1 \<le> i \<and> i < length configLines \<longrightarrow> \<not> is_end (configLines ! i)) \<longrightarrow>
      find_insertIndex configLines = Inl IndexError) \<and>
   (find_insertIndex configLines = Inr i \<longrightarrow>
      1 \<le> i \<and> i < length configLines \<and> is_end (configLines ! i)) \<and>
   find_insertIndex (first # rest) = find_insertIndex (other # rest)"
proof (intro conjI impI)
  assume "\<forall>i. 1 \<le> i \<and> i < length configLines \<longrightarrow> \<not> is_end (configLines ! i)"
  then show "find_insertIndex configLines = Inl IndexError"
    unfolding find_insertIndex_def by (rule insert_search_none)
next
  assume "find_insertIndex configLines = Inr i"
  then have "insert_search configLines 1 = Inr i" by (simp add: find_insertIndex_def)
  from insert_search_found [OF this]
  show "1 \<le> i" "i < length configLines" "is_end (configLines ! i)" by simp_all
next
  show "find_insertIndex (first # rest) = find_insertIndex (other # rest)"
    by (simp only: find_insertIndex_Cons)
qed

theorem insertion_search_witness:
  "is_end end_line \<and> find_insertIndex [end_line, begin_line] = Inl IndexError \<and>
   \<not> is_end begin_line \<and> find_insertIndex [begin_line, begin_line] = Inl IndexError \<and>
   find_insertIndex [end_line, begin_line, end_line] = Inr 2"
proof -
  have e: "is_end end_line" by code_simp
  have b: "\<not> is_end begin_line" by code_simp
  have "\<forall>i. 1 \<le> i \<and> i < length [end_line, begin_line] \<longrightarrow>
      \<not> is_end ([end_line, begin_line] ! i)"
    using b by (auto simp: less_Suc_eq)
  then have 1: "find_insertIndex [end_line, begin_line] = Inl IndexError"
    using insertion_search [of "[end_line, begin_line]"] by blast
  have "\<forall>i. 1 \<le> i \<and> i < length [begin_line, begin_line] \<longrightarrow>
      \<not> is_end ([begin_line, begin_line] ! i)"
    using b by (auto simp: less_Suc_eq)
  then have 2: "find_insertIndex [begin_line, begin_line] = Inl IndexError"
    using insertion_search [of "[begin_line, begin_line]"] by blast
  have 3: "find_insertIndex [end_line, begin_line, end_line] = Inr 2"
    by code_simp
  show ?thesis using e b 1 2 3 by blast
qed

section \<open>The claims about the whole run\<close>

text \<open>
  Claim C8. Only the answers \<^verbatim>\<open>y\<close> and \<^verbatim>\<open>Y\<close> confirm. With any other answer the
  configuration file is left as it was and the service is not restarted; a run that reached
  the prompt ends as declined exactly when the answer is neither of the two.
\<close>

theorem only_y_confirms:
  "answer w = Some cont \<Longrightarrow>
     (cont \<noteq> ''y'' \<and> cont \<noteq> ''Y'' \<longrightarrow>
        config_after (run w) = config_file w \<and> \<not> restarted (run w) \<and>
        exit_with (run w) \<noteq> Completed) \<and>
     (before_prompt w = Inr (configLines, p) \<longrightarrow>
        (exit_with (run w) = Declined) = (cont \<noteq> ''y'' \<and> cont \<noteq> ''Y''))"
proof (cases "before_prompt w")
  case (Inl out)
  assume "answer w = Some cont"
  from before_prompt_early [OF Inl] Inl show ?thesis
    by (simp add: run_def)
next
  case (Inr x)
  assume a: "answer w = Some cont"
  obtain cl q where x: "x = (cl, q)" by (cases x)
  have r: "run w = after_prompt w cl q"
    using Inr x by (simp add: run_def)
  show ?thesis
    unfolding r using a Inr x
    by (auto simp: after_prompt_def stop_def split: sum.splits)
qed

theorem only_y_confirms_witness:
  "run (example_world example_config (example_request ''9.9.9.9'' ''UA'' @ [nl]) (Some ''yes'')) =
     \<lparr>exit_with = Declined, config_after = Some (concat example_config),
      prompted = True, restarted = False\<rparr>"
proof -
  let ?w = "example_world example_config (example_request ''9.9.9.9'' ''UA'' @ [nl]) (Some ''yes'')"
  have a: "answer ?w = Some ''yes''"
    by (simp add: example_world_def)
  have b: "before_prompt ?w =
      Inr (example_config, \<lparr>requestEntries = [example_entry ''9.9.9.9'' ''UA''],
                            requestingIps = [''9.9.9.9'']\<rparr>)"
    by code_simp
  have c: "config_file ?w = Some (concat example_config)"
    by (simp add: example_world_def)
  have d: "prompted (run ?w)"
    using a b by (simp add: run_def after_prompt_def stop_def)
  from only_y_confirms [OF a, of example_config
      "\<lparr>requestEntries = [example_entry ''9.9.9.9'' ''UA''], requestingIps = [''9.9.9.9'']\<rparr>"] b c d
  show ?thesis
    by (cases "run ?w") simp
qed

text \<open>
  Claim C9. When no pending request is left after the filter, the run ends before the
  prompt: the operator is not asked, the configuration file is unchanged and the service is
  not restarted.
\<close>

theorem no_pending_no_prompt:
  assumes "config_file w = Some content"
    and "backup_copy w = CopyDone True"
    and "safety (parse_config (readlines content)) = 2"
    and "requestEntries (pending (authorizedIps (parse_config (readlines content)))
           (split_nl (log_tail w))) = []"
  shows "run w = \<lparr>exit_with = NoNewRequests, config_after = Some content,
                  prompted = False, restarted = False\<rparr>"
proof -
  have "requestingIps (pending (authorizedIps (parse_config (readlines content)))
           (split_nl (log_tail w))) = []"
    using assms(4) by (simp add: pending_lists_agree)
  then show ?thesis
    using assms(1-3) by (simp add: run_def before_prompt_def stop_def Let_def)
qed

theorem no_pending_no_prompt_witness:
  "run (example_world example_config (example_request ''10.0.0.5'' ''UA'' @ [nl]) (Some ''y'')) =
     \<lparr>exit_with = NoNewRequests, config_after = Some (concat example_config),
      prompted = False, restarted = False\<rparr>"
proof -
  let ?w = "example_world example_config (example_request ''10.0.0.5'' ''UA'' @ [nl]) (Some ''y'')"
  have 1: "config_file ?w = Some (concat example_config)"
    by (simp add: example_world_def)
  have 2: "backup_copy ?w = CopyDone True"
    by (simp add: example_world_def)
  have 3: "safety (parse_config (readlines (concat example_config))) = 2"
    by code_simp
  have 4: "requestEntries (pending (authorizedIps (parse_config (readlines (concat example_config))))
           (split_nl (log_tail ?w))) = []"
    by code_simp
  show ?thesis
    by (rule no_pending_no_prompt [OF 1 2 3 4])
qed

end
